theory Spec2Isabelle
  imports Complex_Main "HOL-Library.Monad_Syntax"
begin

section \<open>Python values and exceptions\<close>

text \<open>
  Python integers are unbounded, so they are \<^typ>\<open>int\<close>; \<open>//\<close> and \<open>%\<close> round
  towards minus infinity, as \<open>div\<close> and \<open>mod\<close> on \<^typ>\<open>int\<close> do.  A function
  that can raise returns \<open>py_error + 'a\<close>, with \<open>Inl\<close> the exception.  A loop is a
  \<^theory_text>\<open>partial_function\<close> in the option monad: \<open>None\<close> is a loop that never
  ends, so that each loop's termination is a theorem and not an assumption.
\<close>

datatype py_error = ValueError | OverflowError | IndexError | OSError

section \<open>Number theory (truth.py)\<close>

subsection \<open>\<open>factorize\<close>\<close>

text \<open>
  \<^verbatim>\<open>
  def factorize(n):
      if n < 2:
          return [n]
      factors = []
      d = 2
      while d * d <= n:
          while n % d == 0:
              factors.append(d)
              n //= d
          d += 1
      if n > 1:
          factors.append(n)
      return factors
  \<close>
  The inner loop is \<open>factorize_inner\<close>, the outer one \<open>factorize_outer\<close>; both
  carry the variables \<open>n\<close>, \<open>d\<close> and \<open>factors\<close> that the loops update.  The
  divisor \<open>d\<close> starts at 2 and only grows, so \<open>n % d\<close> never divides by zero.
\<close>

partial_function (option) factorize_inner :: "int \<Rightarrow> int \<Rightarrow> int list \<Rightarrow> (int \<times> int list) option" where
  "factorize_inner n d factors =
     (if n mod d = 0 then factorize_inner (n div d) d (factors @ [d])
      else Some (n, factors))"

partial_function (option) factorize_outer :: "int \<Rightarrow> int \<Rightarrow> int list \<Rightarrow> (int \<times> int list) option" where
  "factorize_outer n d factors =
     (if d * d \<le> n
      then do { (n', factors') \<leftarrow> factorize_inner n d factors;
                factorize_outer n' (d + 1) factors' }
      else Some (n, factors))"

definition factorize :: "int \<Rightarrow> int list option" where
  "factorize n =
     (if n < 2 then Some [n]
      else do { (n', factors) \<leftarrow> factorize_outer n 2 [];
                Some (if n' > 1 then factors @ [n'] else factors) })"

declare factorize_inner.simps [code]
declare factorize_outer.simps [code]

text \<open>
  The mathematical notions the claims are stated with: a prime is an integer from 2 on
  that no integer strictly between 1 and itself divides; \<open>no_divisor_below n d\<close> is the
  invariant of trial division, that nothing in \<open>[2, d)\<close> divides \<open>n\<close>.
\<close>

definition prime_int :: "int \<Rightarrow> bool" where
  "prime_int p \<longleftrightarrow> 2 \<le> p \<and> (\<forall>j\<in>{2..<p}. p mod j \<noteq> 0)"

definition no_divisor_below :: "int \<Rightarrow> int \<Rightarrow> bool" where
  "no_divisor_below n d \<longleftrightarrow> (\<forall>j. 2 \<le> j \<and> j < d \<longrightarrow> n mod j \<noteq> 0)"

subsection \<open>Square roots: \<open>math.isqrt\<close> and \<open>math.sqrt\<close>\<close>

text \<open>
  \<open>math.isqrt(n)\<close> is the exact floor of the square root of a non-negative integer and
  raises ValueError on a negative one.  \<open>floor_sqrt\<close> computes it digit by digit in
  base 2.
\<close>

function floor_sqrt :: "int \<Rightarrow> int" where
  "floor_sqrt n =
     (if n < 2 then n
      else let r = 2 * floor_sqrt (n div 4)
           in if (r + 1) * (r + 1) \<le> n then r + 1 else r)"
  by pat_completeness auto
termination
  by (relation "measure nat") auto

declare floor_sqrt.simps [simp del]

definition math_isqrt :: "int \<Rightarrow> py_error + int" where
  "math_isqrt n = (if n < 0 then Inl ValueError else Inr (floor_sqrt n))"

text \<open>
  \<open>math.sqrt(n)\<close> on an integer first converts \<open>n\<close> to an IEEE 754 double (53
  significant bits, round to nearest, ties to even; OverflowError when the rounded value
  reaches \<open>2 ^ 1024\<close>), raises ValueError when it is negative, and returns the correctly
  rounded double square root.  Doubles are kept as the exact rationals they denote:
  \<open>float_of_nat n\<close> is the double nearest to \<open>n \<ge> 0\<close> and \<open>sqrt_double x\<close> the double
  nearest to the square root of the double \<open>x\<close>.  With \<open>2 ^ e \<le> sqrt x < 2 ^ (e + 1)\<close>
  the doubles around the root are the multiples of \<open>2 ^ (e - 52)\<close>.
\<close>

function bit_length :: "int \<Rightarrow> nat" where
  "bit_length n = (if n \<le> 0 then 0 else Suc (bit_length (n div 2)))"
  by pat_completeness auto
termination
  by (relation "measure nat") auto

declare bit_length.simps [simp del]

definition float_of_nat :: "int \<Rightarrow> int" where
  "float_of_nat n =
     (let k = bit_length n - 53;
          m = n div 2 ^ k;
          r = n mod 2 ^ k;
          m' = (if 2 ^ k < 2 * r \<or> (2 * r = 2 ^ k \<and> odd m) then m + 1 else m)
      in m' * 2 ^ k)"

definition float_of_int :: "int \<Rightarrow> py_error + int" where
  "float_of_int n =
     (let x = float_of_nat \<bar>n\<bar>
      in if 2 ^ 1024 \<le> x then Inl OverflowError
         else Inr (if n < 0 then - x else x))"

definition sqrt_double :: "int \<Rightarrow> rat" where
  "sqrt_double x =
     (if x = 0 then 0
      else let e = (bit_length x - 1) div 2
           in if e \<le> 52
              then let y = x * 4 ^ (52 - e);
                       s = floor_sqrt y;
                       m = (if s < y - s * s then s + 1 else s)
                   in of_int m / 2 ^ (52 - e)
              else let j = e - 52;
                       s = floor_sqrt (x div 4 ^ j);
                       m = (if (s * s + s) * 4 ^ j + 4 ^ (j - 1) < x then s + 1 else s)
                   in of_int (m * 2 ^ j))"

definition math_sqrt :: "int \<Rightarrow> py_error + rat" where
  "math_sqrt n =
     (case float_of_int n of
        Inl err \<Rightarrow> Inl err
      | Inr x \<Rightarrow> if x < 0 then Inl ValueError else Inr (sqrt_double x))"

subsection \<open>\<open>is_prime\<close> and \<open>find_previous_primes\<close>\<close>

text \<open>
  \<^verbatim>\<open>
  def is_prime(n):
      if n < 2:
          return False
      for i in range(2, int(math.sqrt(n)) + 1):
          if n % i == 0:
              return False
      return True

  def find_previous_primes(n, count):
      primes = []
      candidate = n - 1
      while len(primes) < count and candidate > 1:
          if is_prime(candidate):
              primes.append(candidate)
          candidate -= 1
      return primes
  \<close>
  \<open>is_prime_loop n i stop\<close> is the \<open>for\<close> loop from \<open>i\<close> on, \<open>stop\<close> the end of
  the range; \<open>int(x)\<close> of a non-negative double is its floor.
\<close>

partial_function (option) is_prime_loop :: "int \<Rightarrow> int \<Rightarrow> int \<Rightarrow> bool option" where
  "is_prime_loop n i stop =
     (if i < stop then (if n mod i = 0 then Some False else is_prime_loop n (i + 1) stop)
      else Some True)"

declare is_prime_loop.simps [code]

definition is_prime :: "int \<Rightarrow> (py_error + bool) option" where
  "is_prime n =
     (if n < 2 then Some (Inr False)
      else case math_sqrt n of
             Inl err \<Rightarrow> Some (Inl err)
           | Inr x \<Rightarrow> map_option Inr (is_prime_loop n 2 (\<lfloor>x\<rfloor> + 1)))"

partial_function (option) find_previous_primes_loop ::
    "int \<Rightarrow> int list \<Rightarrow> int \<Rightarrow> (py_error + int list) option" where
  "find_previous_primes_loop count primes candidate =
     (if int (length primes) < count \<and> candidate > 1
      then do { r \<leftarrow> is_prime candidate;
                case r of
                  Inl err \<Rightarrow> Some (Inl err)
                | Inr b \<Rightarrow> find_previous_primes_loop count
                            (if b then primes @ [candidate] else primes) (candidate - 1) }
      else Some (Inr primes))"

declare find_previous_primes_loop.simps [code]

definition find_previous_primes :: "int \<Rightarrow> int \<Rightarrow> (py_error + int list) option" where
  "find_previous_primes n count = find_previous_primes_loop count [] (n - 1)"

section \<open>Trial division: \<open>factorize\<close>\<close>

lemma no_divisor_belowD:
  "no_divisor_below n d \<Longrightarrow> 2 \<le> j \<Longrightarrow> j < d \<Longrightarrow> n mod j \<noteq> 0"
  by (simp add: no_divisor_below_def)

lemma prime_int_least_divisor:
  assumes "no_divisor_below n d" "2 \<le> d" "n mod d = 0"
  shows "prime_int d"
  unfolding prime_int_def
proof (intro conjI ballI)
  show "2 \<le> d" by fact
next
  fix j assume j: "j \<in> {2..<d}"
  show "d mod j \<noteq> 0"
  proof
    assume "d mod j = 0"
    then have "j dvd d" by auto
    moreover have "d dvd n" using assms(3) by auto
    ultimately have "j dvd n" by (rule dvd_trans)
    then have "n mod j = 0" by auto
    moreover have "n mod j \<noteq> 0" using assms(1) j by (intro no_divisor_belowD[of n d]) auto
    ultimately show False by simp
  qed
qed

lemma prime_int_cofactor:
  assumes nd: "no_divisor_below m d" and "m < d * d" "1 < m" "2 \<le> d"
  shows "prime_int m \<and> d \<le> m"
proof -
  have dm: "d \<le> m"
  proof (rule ccontr)
    assume "\<not> d \<le> m"
    then have "2 \<le> m" "m < d" using assms by auto
    then have "m mod m \<noteq> 0" by (rule no_divisor_belowD[OF nd])
    then show False by simp
  qed
  have "m mod j \<noteq> 0" if j: "j \<in> {2..<m}" for j
  proof
    assume z: "m mod j = 0"
    define c where "c = m div j"
    have "j dvd m" using z by auto
    then have "j * (m div j) = m" by (rule dvd_mult_div_cancel)
    then have mc: "m = j * c" by (simp add: c_def)
    have jpos: "0 < j" using j by auto
    have c2: "2 \<le> c"
    proof (rule ccontr)
      assume "\<not> 2 \<le> c"
      then have "c \<le> 1" by auto
      then have "j * c \<le> j * 1" using jpos by (intro mult_left_mono) auto
      with mc j show False by auto
    qed
    have "m mod c = 0" using mc by auto
    have "d \<le> j"
    proof (rule ccontr)
      assume "\<not> d \<le> j"
      then have "m mod j \<noteq> 0" using j by (intro no_divisor_belowD[OF nd]) auto
      with z show False by simp
    qed
    moreover have "d \<le> c"
    proof (rule ccontr)
      assume "\<not> d \<le> c"
      then have "m mod c \<noteq> 0" using c2 by (intro no_divisor_belowD[OF nd]) auto
      with \<open>m mod c = 0\<close> show False by simp
    qed
    ultimately have "d * d \<le> j * c" using assms(4) by (intro mult_mono) auto
    with mc assms(2) show False by auto
  qed
  with assms(3) dm show ?thesis by (auto simp: prime_int_def)
qed

lemma factorize_inner_result:
  assumes "1 \<le> n" "2 \<le> d"
  shows "\<exists>m k. factorize_inner n d fs = Some (m, fs @ replicate k d) \<and> n = m * d ^ k
           \<and> m mod d \<noteq> 0 \<and> 1 \<le> m \<and> (0 < k \<longrightarrow> n mod d = 0)"
  using assms
proof (induction "nat n" arbitrary: n fs rule: less_induct)
  case less
  show ?case
  proof (cases "n mod d = 0")
    case False
    then have "factorize_inner n d fs = Some (n, fs @ replicate 0 d)"
      by (subst factorize_inner.simps) simp
    with False less.prems show ?thesis by (intro exI[of _ n] exI[of _ 0]) simp
  next
    case True
    then have nd: "n = d * (n div d)" by auto
    have "d dvd n" using True by auto
    then have "d \<le> n" using less.prems by (intro zdvd_imp_le) auto
    then have "0 < n div d" using less.prems by (simp add: pos_imp_zdiv_pos_iff)
    then have q1: "1 \<le> n div d" by simp
    have qlt: "n div d < n" using less.prems q1 by (simp add: int_div_less_self)
    then have "nat (n div d) < nat n" using q1 by auto
    from less.hyps[OF this q1 less.prems(2), of "fs @ [d]"]
    obtain m k where r: "factorize_inner (n div d) d (fs @ [d]) = Some (m, (fs @ [d]) @ replicate k d)"
      and e: "n div d = m * d ^ k" and md: "m mod d \<noteq> 0" and m1: "1 \<le> m" by blast
    have "factorize_inner n d fs = Some (m, fs @ replicate (Suc k) d)"
      using True r by (subst factorize_inner.simps) (simp add: replicate_app_Cons_same)
    moreover have "n = m * d ^ Suc k"
    proof -
      have "n = d * (m * d ^ k)" using nd e by simp
      then show ?thesis by (simp add: mult_ac)
    qed
    ultimately show ?thesis using md m1 True
      by (intro exI[of _ m] exI[of _ "Suc k"]) simp
  qed
qed


lemma no_divisor_below_step:
  assumes nd: "no_divisor_below n d" and e: "n = m * d ^ k" and md: "m mod d \<noteq> 0"
  shows "no_divisor_below m (d + 1)"
  unfolding no_divisor_below_def
proof (intro allI impI)
  fix j assume j: "2 \<le> j \<and> j < d + 1"
  show "m mod j \<noteq> 0"
  proof (cases "j = d")
    case True
    with md show ?thesis by simp
  next
    case False
    with j have jd: "2 \<le> j" "j < d" by auto
    show ?thesis
    proof
      assume "m mod j = 0"
      then have "j dvd m" by auto
      then have "j dvd n" unfolding e by (rule dvd_mult2)
      then have "n mod j = 0" by auto
      with no_divisor_belowD[OF nd jd] show False by simp
    qed
  qed
qed

lemma factorize_outer_result:
  assumes "1 \<le> n" "2 \<le> d" "no_divisor_below n d"
    and "\<forall>p\<in>set fs. prime_int p \<and> p < d" "sorted fs"
  shows "\<exists>m fs'. factorize_outer n d fs = Some (m, fs') \<and> 1 \<le> m
           \<and> prod_list fs' * m = prod_list fs * n
           \<and> (\<forall>p\<in>set fs'. prime_int p) \<and> sorted fs'
           \<and> (1 < m \<longrightarrow> prime_int m \<and> (\<forall>p\<in>set fs'. p \<le> m))"
  using assms
proof (induction "nat (n + 1 - d)" arbitrary: n d fs rule: less_induct)
  case less
  show ?case
  proof (cases "d * d \<le> n")
    case False
    then have r: "factorize_outer n d fs = Some (n, fs)"
      by (subst factorize_outer.simps) simp
    have big: "prime_int n \<and> (\<forall>p\<in>set fs. p \<le> n)" if "1 < n"
    proof -
      have "n < d * d" using False by simp
      from prime_int_cofactor[OF less.prems(3) this that less.prems(2)]
      have "prime_int n" "d \<le> n" by simp_all
      moreover have "p \<le> n" if "p \<in> set fs" for p
        using less.prems(4) that \<open>d \<le> n\<close> by force
      ultimately show ?thesis by simp
    qed
    show ?thesis
      using r less.prems(1,4) less.prems(5) big
      by (intro exI[of _ n] exI[of _ fs]) simp
  next
    case True
    from factorize_inner_result[OF less.prems(1,2), of fs]
    obtain m k where inner: "factorize_inner n d fs = Some (m, fs @ replicate k d)"
      and e: "n = m * d ^ k" and md: "m mod d \<noteq> 0" and m1: "1 \<le> m"
      and kd: "0 < k \<longrightarrow> n mod d = 0" by - (elim exE conjE, rule that)
    let ?fs = "fs @ replicate k d"
    have nd': "no_divisor_below m (d + 1)"
      by (rule no_divisor_below_step[OF less.prems(3) e md])
    have pd: "prime_int d" if "0 < k"
      using prime_int_least_divisor[OF less.prems(3) less.prems(2)] kd that by simp
    have primes: "\<forall>p\<in>set ?fs. prime_int p \<and> p < d + 1"
    proof
      fix p assume "p \<in> set ?fs"
      then consider "p \<in> set fs" | "p = d" "0 < k" by (cases k) auto
      then show "prime_int p \<and> p < d + 1"
      proof cases
        case 1
        with less.prems(4) show ?thesis by force
      next
        case 2
        with pd show ?thesis by simp
      qed
    qed
    have srt: "sorted ?fs"
      using less.prems(4,5) by (force simp: sorted_append)
    have dk: "1 \<le> d ^ k" using less.prems(2) by simp
    have "m * 1 \<le> m * d ^ k" using m1 dk by (intro mult_left_mono) auto
    then have mn: "m \<le> n" using e by simp
    have "d * 1 \<le> d * d" using less.prems(2) by (intro mult_left_mono) auto
    then have "d \<le> n" using True by simp
    then have meas: "nat (m + 1 - (d + 1)) < nat (n + 1 - d)" using mn by simp
    have d1: "2 \<le> d + 1" using less.prems(2) by simp
    from less.hyps[OF meas m1 d1 nd' primes srt]
    obtain m' fs' where rec: "factorize_outer m (d + 1) ?fs = Some (m', fs')"
      and m'1: "1 \<le> m'" and pr: "prod_list fs' * m' = prod_list ?fs * m"
      and ps: "\<forall>p\<in>set fs'. prime_int p" and s': "sorted fs'"
      and fin: "1 < m' \<longrightarrow> prime_int m' \<and> (\<forall>p\<in>set fs'. p \<le> m')"
      by - (elim exE conjE, rule that)
    have r: "factorize_outer n d fs = Some (m', fs')"
      using True inner rec by (subst factorize_outer.simps) simp
    have "prod_list fs' * m' = prod_list fs * n"
      using pr e by (simp add: mult_ac)
    with r m'1 ps s' fin show ?thesis
      by (intro exI[of _ m'] exI[of _ fs']) simp
  qed
qed

lemma no_divisor_below_2: "no_divisor_below n 2"
  by (simp add: no_divisor_below_def)

text \<open>
  Claim C3.  For every integer \<open>n \<ge> 2\<close>, \<open>factorize n\<close> returns a list whose product
  is \<open>n\<close>, whose elements are all prime and which is in nondecreasing order; for every
  \<open>n < 2\<close> it returns the one-element list \<open>[n]\<close>.
\<close>

theorem factorize_correct:
  "(n < 2 \<longrightarrow> factorize n = Some [n]) \<and>
   (2 \<le> n \<longrightarrow> (\<exists>fs. factorize n = Some fs \<and> prod_list fs = n
                      \<and> (\<forall>p\<in>set fs. prime_int p) \<and> sorted fs))"
proof (intro conjI impI)
  assume "n < 2"
  then show "factorize n = Some [n]" by (simp add: factorize_def)
next
  assume n2: "2 \<le> n"
  then have n1: "1 \<le> n" by simp
  from factorize_outer_result[OF n1 _ no_divisor_below_2, of "[]"]
  obtain m fs where r: "factorize_outer n 2 [] = Some (m, fs)" and m1: "1 \<le> m"
    and pr: "prod_list fs * m = n" and ps: "\<forall>p\<in>set fs. prime_int p" and srt: "sorted fs"
    and fin: "1 < m \<longrightarrow> prime_int m \<and> (\<forall>p\<in>set fs. p \<le> m)" by auto
  show "\<exists>fs. factorize n = Some fs \<and> prod_list fs = n \<and> (\<forall>p\<in>set fs. prime_int p) \<and> sorted fs"
  proof (cases "1 < m")
    case True
    then have "factorize n = Some (fs @ [m])" using n2 r by (simp add: factorize_def)
    moreover have "sorted (fs @ [m])" using srt fin True by (simp add: sorted_append)
    ultimately show ?thesis using pr ps fin True by simp
  next
    case False
    then have "m = 1" using m1 by simp
    moreover have "factorize n = Some fs" using n2 r False by (simp add: factorize_def)
    ultimately show ?thesis using pr ps srt by simp
  qed
qed

theorem factorize_correct_witness:
  "(1::int) < 2 \<and> factorize 1 = Some [1] \<and> (2::int) \<le> 255
   \<and> factorize 255 = Some [3, 5, 17] \<and> prod_list [3, 5, 17] = (255::int)
   \<and> prime_int 3 \<and> prime_int 5 \<and> prime_int 17 \<and> sorted [3, 5, 17 :: int]"
proof -
  have e: "factorize 255 = Some [3, 5, 17]" by code_simp
  from factorize_correct[of 255] e
  have "prod_list [3, 5, 17] = (255::int) \<and> (\<forall>p\<in>set [3, 5, 17]. prime_int p)
        \<and> sorted [3, 5, 17 :: int]" by simp
  with e factorize_correct[of 1] show ?thesis by simp
qed

end
